theory Spec2Isabelle
  imports Main "HOL-Library.Multiset" "HOL-Library.Sublist"
begin

section \<open>The finite-state-machine engine of fsm.go\<close>

subsection \<open>States and transitions\<close>

text \<open>
  \<^verbatim>\<open>type State int\<close>. The program only ever compares states for equality, so the
  width of Go's \<open>int\<close> plays no role and a state is an integer.
\<close>

type_synonym State = int

text \<open>
  \<^verbatim>\<open>type Transition interface { Origin() State; Exit() State }\<close> is an open interface and
  the key type of the rule map. A Go map compares interface keys by dynamic type and
  then by value; a pointer value is compared by its address.
  \<^item> \<open>T a b\<close> is the repository's own struct \<^verbatim>\<open>type T struct { O, E State }\<close>.
  \<^item> \<open>Ptr p a b\<close> is a pointer key (such as \<^verbatim>\<open>&T{a, b}\<close>) with address \<open>p\<close>, whose
    pointee answers \<open>a\<close> and \<open>b\<close>. An address has one pointee, and the pointee is taken
    not to change while the pointer is a key; so two pointer keys are equal exactly when
    their addresses are, and two pointers to equal structs at different addresses are
    different keys.
  \<^item> \<open>Other n a b\<close> is a value of any further comparable struct type, named \<open>n\<close>, whose
    methods answer \<open>a\<close> and \<open>b\<close>.
  Equality of the datatype is then the equality the map uses. A key whose dynamic type
  is not comparable makes the map operation panic; such keys are not values of this
  type.
\<close>

datatype Transition = T State State | Ptr nat State State | Other string State State

fun Origin :: "Transition \<Rightarrow> State" where
  "Origin (T a b) = a"
| "Origin (Ptr p a b) = a"
| "Origin (Other n a b) = a"

fun Exit :: "Transition \<Rightarrow> State" where
  "Exit (T a b) = b"
| "Exit (Ptr p a b) = b"
| "Exit (Other n a b) = b"

subsection \<open>Subjects, guards and the memory\<close>

text \<open>
  \<^verbatim>\<open>type Stater interface { CurrentState() State; SetState(State) }\<close>. The implementation
  belongs to the caller: a subject is a reference \<open>ref\<close> to an object of the caller's
  type together with its two methods. The objects live in the memory (\<open>objects\<close> below);
  \<open>SetState\<close> replaces the object the subject refers to by what the caller's method makes
  of it.
\<close>

record 's Stater =
  CurrentState_method :: "'s \<Rightarrow> State"
  SetState_method :: "State \<Rightarrow> 's \<Rightarrow> 's"
  ref :: nat

text \<open>
  \<^verbatim>\<open>type Guard func(subject Stater, goal State) bool\<close>. A guard is taken to be non-nil, to
  return, and to leave the memory alone: it is a function of the subject, the goal and
  the objects it may read.
\<close>

type_synonym 's Guard = "'s Stater \<Rightarrow> State \<Rightarrow> (nat \<Rightarrow> 's) \<Rightarrow> bool"

text \<open>
  A slice \<^verbatim>\<open>[]Guard\<close> is a view of a backing array: the address \<open>base\<close> of the array, the
  offset \<open>off\<close> of the slice within it, its length and its capacity. The nil slice has
  length and capacity 0 and touches no array.
\<close>

record slice =
  base :: nat
  off :: nat
  len :: nat
  cap :: nat

definition nil_slice :: slice where
  "nil_slice = \<lparr>base = 0, off = 0, len = 0, cap = 0\<rparr>"

text \<open>
  \<^verbatim>\<open>type RuleSet map[Transition][]Guard\<close> is a reference to a map; a rule set is the
  address of its map. The memory holds
  \<^item> \<open>objects\<close>: the objects the subjects refer to;
  \<^item> \<open>maps\<close>: for each rule set, the entries of its map, a slice for each key that is
    present; \<open>next_map\<close> is the address the next \<^verbatim>\<open>RuleSet{}\<close> gets;
  \<^item> \<open>arrays\<close>: for each backing array, the slots written so far (the slots after them,
    up to the size of the array, are still nil); \<open>next_array\<close> is the address of the next
    array that \<open>append\<close> allocates;
  \<^item> \<open>spare\<close>: how many slots more than needed the runtime gives a new backing array,
    from the old capacity and the needed length. The language leaves this to the
    runtime, so it is a parameter.
  A rule set is taken to be allocated: writing to a nil map panics.
\<close>

type_synonym RuleSet = nat

record 's world =
  objects :: "nat \<Rightarrow> 's"
  maps :: "nat \<Rightarrow> (Transition \<rightharpoonup> slice)"
  next_map :: nat
  arrays :: "nat \<Rightarrow> 's Guard list"
  next_array :: nat
  spare :: "nat \<Rightarrow> nat \<Rightarrow> nat"

definition CurrentState :: "'s Stater \<Rightarrow> 's world \<Rightarrow> State" where
  "CurrentState subject w = CurrentState_method subject (objects w (ref subject))"

definition SetState :: "'s Stater \<Rightarrow> State \<Rightarrow> 's world \<Rightarrow> 's world" where
  "SetState subject s w =
     w\<lparr>objects := (objects w)(ref subject := SetState_method subject s (objects w (ref subject)))\<rparr>"

subsection \<open>Reading the rule map\<close>

text \<open>
  The guards a slice shows, and \<^verbatim>\<open>guards, ok := r[t]\<close>: \<open>None\<close> when the key is absent,
  the guards of its slice otherwise (possibly none: a key may be bound to an empty
  slice by a map literal). \<open>index\<close> is \<^verbatim>\<open>r[t]\<close> without the \<open>ok\<close> flag, the nil slice for an
  absent key.
\<close>

definition elements :: "'s world \<Rightarrow> slice \<Rightarrow> 's Guard list" where
  "elements w s = take (len s) (drop (off s) (arrays w (base s)))"

definition lookup :: "'s world \<Rightarrow> RuleSet \<Rightarrow> Transition \<Rightarrow> 's Guard list option" where
  "lookup w r t = map_option (elements w) (maps w r t)"

definition index :: "'s world \<Rightarrow> RuleSet \<Rightarrow> Transition \<Rightarrow> slice" where
  "index w r t = (case maps w r t of None \<Rightarrow> nil_slice | Some s \<Rightarrow> s)"

subsection \<open>AddRule, AddTransition, CreateRuleSet\<close>

text \<open>
  \<^verbatim>\<open>append(s, guard)\<close>. With spare capacity the guard is written in place, into the slot
  after the last one the slice shows, whatever other slice shows that slot too; the
  result is the same view, one longer. Without, a new array is allocated, the guards
  of the slice are copied and the guard added; the old array is left as it was.
  \<open>put_slot\<close> writes slot \<open>i\<close> of an array of which the slots before \<open>i\<close> are written
  (a slice of guards shows written slots only).
\<close>

definition put_slot :: "nat \<Rightarrow> 'a \<Rightarrow> 'a list \<Rightarrow> 'a list" where
  "put_slot i x xs = (if i < length xs then xs[i := x] else xs @ [x])"

definition append_guard :: "slice \<Rightarrow> 's Guard \<Rightarrow> 's world \<Rightarrow> slice \<times> 's world" where
  "append_guard s guard w =
     (if len s < cap s
      then (s\<lparr>len := Suc (len s)\<rparr>,
            w\<lparr>arrays := (arrays w)(base s := put_slot (off s + len s) guard (arrays w (base s)))\<rparr>)
      else (\<lparr>base = next_array w, off = 0, len = Suc (len s),
              cap = Suc (len s) + spare w (cap s) (Suc (len s))\<rparr>,
            w\<lparr>arrays := (arrays w)(next_array w := elements w s @ [guard]),
              next_array := Suc (next_array w)\<rparr>))"

text \<open>
  \<^verbatim>\<open>
  func (r RuleSet) AddRule(t Transition, guards ...Guard) {
      for _, guard := range guards {
          r[t] = append(r[t], guard)
      }
  }\<close>
  \<open>assign\<close> is the map write \<^verbatim>\<open>r[t] = s\<close>, and \<open>append_entry\<close> the body of the loop.
\<close>

definition assign :: "RuleSet \<Rightarrow> Transition \<Rightarrow> slice \<Rightarrow> 's world \<Rightarrow> 's world" where
  "assign r t s w = w\<lparr>maps := (maps w)(r := (maps w r)(t \<mapsto> s))\<rparr>"

definition append_entry :: "RuleSet \<Rightarrow> Transition \<Rightarrow> 's Guard \<Rightarrow> 's world \<Rightarrow> 's world" where
  "append_entry r t guard w =
     (case append_guard (index w r t) guard w of (s, w1) \<Rightarrow> assign r t s w1)"

fun AddRule :: "RuleSet \<Rightarrow> Transition \<Rightarrow> 's Guard list \<Rightarrow> 's world \<Rightarrow> 's world" where
  "AddRule r t [] w = w"
| "AddRule r t (guard # guards) w = AddRule r t guards (append_entry r t guard w)"

text \<open>
  \<^verbatim>\<open>
  func (r RuleSet) AddTransition(t Transition) {
      r.AddRule(t, func(subject Stater, goal State) bool {
          return subject.CurrentState() == t.Origin()
      })
  }\<close>
\<close>

definition default_guard :: "Transition \<Rightarrow> 's Guard" where
  "default_guard t = (\<lambda>subject goal objs. CurrentState_method subject (objs (ref subject)) = Origin t)"

definition AddTransition :: "RuleSet \<Rightarrow> Transition \<Rightarrow> 's world \<Rightarrow> 's world" where
  "AddTransition r t w = AddRule r t [default_guard t] w"

text \<open>
  \<^verbatim>\<open>
  func CreateRuleSet(transitions ...Transition) RuleSet {
      r := RuleSet{}
      for _, t := range transitions { r.AddTransition(t) }
      return r
  }\<close>
  \<open>new_RuleSet\<close> is \<^verbatim>\<open>RuleSet{}\<close>: a new, empty map.
\<close>

definition new_RuleSet :: "'s world \<Rightarrow> RuleSet \<times> 's world" where
  "new_RuleSet w =
     (next_map w, w\<lparr>maps := (maps w)(next_map w := Map.empty), next_map := Suc (next_map w)\<rparr>)"

fun CreateRuleSet_loop :: "RuleSet \<Rightarrow> Transition list \<Rightarrow> 's world \<Rightarrow> 's world" where
  "CreateRuleSet_loop r [] w = w"
| "CreateRuleSet_loop r (t # transitions) w = CreateRuleSet_loop r transitions (AddTransition r t w)"

definition CreateRuleSet :: "Transition list \<Rightarrow> 's world \<Rightarrow> RuleSet \<times> 's world" where
  "CreateRuleSet transitions w =
     (case new_RuleSet w of (r, w0) \<Rightarrow> (r, CreateRuleSet_loop r transitions w0))"

subsection \<open>Permitted\<close>

text \<open>
  \<^verbatim>\<open>
  func (r RuleSet) Permitted(subject Stater, goal State) bool {
      attempt := T{subject.CurrentState(), goal}
      if guards, ok := r[attempt]; ok {
          outcome := make(chan bool)
          for _, guard := range guards {
              go func(g Guard) { outcome <- g(subject, goal) }(guard)
          }
          for range guards {
              select {
              case o := <-outcome:
                  if !o { return false }
              }
          }
          return true
      }
      return false
  }\<close>
  Every guard sends one outcome; the second loop receives at most as many outcomes as
  there are guards and stops at the first \<open>false\<close>. \<open>await_outcomes\<close> is that loop over
  the outcomes in the order they arrive. \<open>Permitted\<close> takes them in the order of the guard
  list; \<open>await_outcomes_any_order\<close> below shows that the order of arrival does not change
  the answer. The function has the memory at its disposal like every other, so it
  returns its answer together with the memory it leaves.
\<close>

fun await_outcomes :: "bool list \<Rightarrow> bool" where
  "await_outcomes [] = True"
| "await_outcomes (outcome # rest) = (if \<not> outcome then False else await_outcomes rest)"

definition Permitted :: "RuleSet \<Rightarrow> 's Stater \<Rightarrow> State \<Rightarrow> 's world \<Rightarrow> bool \<times> 's world" where
  "Permitted r subject goal w =
     (let attempt = T (CurrentState subject w) goal in
      case maps w r attempt of
        Some guards \<Rightarrow>
          (await_outcomes (map (\<lambda>g. g subject goal (objects w)) (elements w guards)), w)
      | None \<Rightarrow> (False, w))"

subsection \<open>Machine\<close>

text \<open>
  \<^verbatim>\<open>
  type Machine struct { Rules *RuleSet; Subject Stater }

  func (m Machine) Transition(goal State) error {
      if m.Rules.Permitted(m.Subject, goal) {
          m.Subject.SetState(goal)
          return nil
      }
      return ErrInvalidTransition
  }\<close>
  The call returns an error or \<open>nil\<close> (\<open>None\<close>), together with the memory it leaves.
  \<open>Rules\<close> and \<open>Subject\<close> are taken to be non-nil; \<open>Rules\<close> is the address of the rule map.
\<close>

datatype error = ErrInvalidTransition

record 's Machine =
  Rules :: RuleSet
  Subject :: "'s Stater"

definition Machine_Transition :: "'s Machine \<Rightarrow> State \<Rightarrow> 's world \<Rightarrow> error option \<times> 's world" where
  "Machine_Transition m goal w =
     (case Permitted (Rules m) (Subject m) goal w of
        (permitted, w1) \<Rightarrow>
          if permitted then (None, SetState (Subject m) goal w1)
          else (Some ErrInvalidTransition, w1))"

definition New :: "RuleSet \<Rightarrow> 's Stater \<Rightarrow> 's Machine" where
  "New rules subject = \<lparr>Rules = rules, Subject = subject\<rparr>"

subsection \<open>Registering by hand\<close>

text \<open>
  The specification describes \<open>CreateRuleSet\<close> as: start from an empty rule set and call
  \<open>AddTransition\<close> for each transition in turn. This definition follows those words, to
  be compared with \<open>CreateRuleSet\<close> above.
\<close>

definition manual_AddTransitions :: "Transition list \<Rightarrow> 's world \<Rightarrow> RuleSet \<times> 's world" where
  "manual_AddTransitions transitions w =
     (case new_RuleSet w of (r, w0) \<Rightarrow> (r, foldl (\<lambda>w' t. AddTransition r t w') w0 transitions))"

subsection \<open>Rule sets without shared backing arrays\<close>

text \<open>
  \<open>separate w r\<close>: the slices of the rule set \<open>r\<close> are well formed (the length within the
  capacity, the array allocated, the slots the slice shows written) and no two keys
  share a backing array. A map literal can bind two keys to slices of one array; the
  functions of this file never do.
\<close>

definition separate :: "'s world \<Rightarrow> RuleSet \<Rightarrow> bool" where
  "separate w r =
     ((\<forall>k s. maps w r k = Some s \<longrightarrow>
         len s \<le> cap s \<and>
         (0 < cap s \<longrightarrow> base s < next_array w \<and> off s + len s \<le> length (arrays w (base s))))
      \<and> (\<forall>k k' s s'. maps w r k = Some s \<and> maps w r k' = Some s' \<and> k \<noteq> k'
             \<and> 0 < cap s \<and> 0 < cap s' \<longrightarrow> base s \<noteq> base s'))"

subsection \<open>Example values\<close>

text \<open>
  A subject whose object, at address 0, is just its state (\<open>CurrentState\<close> reads it,
  \<open>SetState\<close> overwrites it); the two constant guards; the memory \<open>start s\<close> with no rule
  set yet and every object in state \<open>s\<close>; and \<open>example t guards s\<close>, the memory after
  \<^verbatim>\<open>r := RuleSet{}; r.AddRule(t, guards...)\<close> from there (the rule set is at address 0).
\<close>

definition plain_subject :: "State Stater" where
  "plain_subject = \<lparr>CurrentState_method = (\<lambda>x. x), SetState_method = (\<lambda>g x. g), ref = 0\<rparr>"

definition always :: "bool \<Rightarrow> 's Guard" where
  "always b = (\<lambda>subject goal objs. b)"

definition start :: "State \<Rightarrow> State world" where
  "start s = \<lparr>objects = (\<lambda>a. s), maps = (\<lambda>a. Map.empty), next_map = 0,
     arrays = (\<lambda>a. []), next_array = 0, spare = (\<lambda>c n. n)\<rparr>"

definition example :: "Transition \<Rightarrow> State Guard list \<Rightarrow> State \<Rightarrow> State world" where
  "example t guards s = AddRule 0 t guards (snd (new_RuleSet (start s)))"


section \<open>Properties\<close>

subsection \<open>The receiving loop\<close>

lemma await_outcomes_iff: "await_outcomes outcomes = (\<forall>b \<in> set outcomes. b)"
  by (induction outcomes) auto

lemma await_outcomes_any_order:
  "mset arrived = mset outcomes \<Longrightarrow> await_outcomes arrived = await_outcomes outcomes"
proof -
  assume "mset arrived = mset outcomes"
  then have "set arrived = set outcomes" by (rule mset_eq_setD)
  then show ?thesis by (simp only: await_outcomes_iff)
qed

subsection \<open>Writing a slot\<close>

lemma length_put_slot:
  "length (put_slot i x xs) = (if i < length xs then length xs else Suc (length xs))"
  by (simp add: put_slot_def)

lemma take_drop_put_slot:
  assumes "m + n \<le> length xs"
  shows "take (Suc n) (drop m (put_slot (m + n) x xs)) = take n (drop m xs) @ [x]"
proof (cases "m + n < length xs")
  case True
  then have "n < length (drop m xs)" by simp
  then have "take (Suc n) ((drop m xs)[n := x]) = take n (drop m xs) @ [x]"
    by (simp add: take_Suc_conv_app_nth)
  moreover have "drop m (xs[m + n := x]) = (drop m xs)[n := x]"
    by (simp add: drop_update_swap)
  ultimately show ?thesis using True by (simp add: put_slot_def)
next
  case False
  with assms have "m + n = length xs" by simp
  then show ?thesis by (simp add: put_slot_def)
qed

subsection \<open>Permitted only reads\<close>

lemma Permitted_world: "snd (Permitted r subject goal w) = w"
  by (simp add: Permitted_def split: option.split)

lemma Permitted_None:
  "lookup w r (T (CurrentState subject w) goal) = None \<Longrightarrow> \<not> fst (Permitted r subject goal w)"
  by (simp add: Permitted_def lookup_def)

lemma Permitted_Some:
  "lookup w r (T (CurrentState subject w) goal) = Some guards \<Longrightarrow>
   fst (Permitted r subject goal w) = (\<forall>g \<in> set guards. g subject goal (objects w))"
  by (auto simp add: Permitted_def lookup_def await_outcomes_iff)


subsection \<open>One pass of the loop of AddRule\<close>

lemma separate_len:
  "separate w r \<Longrightarrow> maps w r k = Some s \<Longrightarrow> len s \<le> cap s"
  unfolding separate_def by blast

lemma separate_base:
  "separate w r \<Longrightarrow> maps w r k = Some s \<Longrightarrow> 0 < cap s \<Longrightarrow> base s < next_array w"
  unfolding separate_def by blast

lemma separate_written:
  "separate w r \<Longrightarrow> maps w r k = Some s \<Longrightarrow> 0 < cap s \<Longrightarrow>
   off s + len s \<le> length (arrays w (base s))"
  unfolding separate_def by blast

lemma separate_distinct:
  "separate w r \<Longrightarrow> maps w r k = Some s \<Longrightarrow> maps w r k' = Some s' \<Longrightarrow> k \<noteq> k' \<Longrightarrow>
   0 < cap s \<Longrightarrow> 0 < cap s' \<Longrightarrow> base s \<noteq> base s'"
  unfolding separate_def by blast

lemma index_cases:
  "(maps w r t = None \<and> index w r t = nil_slice) \<or> maps w r t = Some (index w r t)"
  by (cases "maps w r t") (simp_all add: index_def)

lemma separate_index:
  assumes "separate w r"
  shows "len (index w r t) \<le> cap (index w r t)"
    and "0 < cap (index w r t) \<Longrightarrow> base (index w r t) < next_array w"
    and "0 < cap (index w r t) \<Longrightarrow>
           off (index w r t) + len (index w r t) \<le> length (arrays w (base (index w r t)))"
    and "0 < cap (index w r t) \<Longrightarrow> maps w r t = Some (index w r t)"
  using assms index_cases [of w r t]
  by (auto simp add: separate_def nil_slice_def)

lemma length_elements_index:
  assumes "separate w r"
  shows "length (elements w (index w r t)) = len (index w r t)"
proof (cases "0 < cap (index w r t)")
  case True
  from separate_index(3) [OF assms True] show ?thesis by (simp add: elements_def)
next
  case False
  with separate_index(1) [OF assms, of t] show ?thesis by (simp add: elements_def)
qed

lemma append_entry_same:
  assumes "separate w r"
  shows "lookup (append_entry r t guard w) r t = Some (elements w (index w r t) @ [guard])"
proof (cases "len (index w r t) < cap (index w r t)")
  case True
  then have "0 < cap (index w r t)" by simp
  from separate_index(3) [OF assms this] True show ?thesis
    by (simp add: append_entry_def append_guard_def assign_def lookup_def elements_def take_drop_put_slot)
next
  case False
  have "length (elements w (index w r t)) \<le> len (index w r t)"
    by (simp add: elements_def)
  with False show ?thesis
    by (simp add: append_entry_def append_guard_def assign_def lookup_def elements_def)
qed

lemma append_entry_other:
  assumes "separate w r" and "k \<noteq> t"
  shows "lookup (append_entry r t guard w) r k = lookup w r k"
proof (cases "maps w r k")
  case None
  with assms(2) show ?thesis
    by (simp add: append_entry_def append_guard_def assign_def lookup_def)
next
  case (Some sk)
  show ?thesis
  proof (cases "0 < cap sk")
    case False
    with separate_len [OF assms(1) Some] have "len sk = 0" by simp
    with assms(2) Some show ?thesis
      by (simp add: append_entry_def append_guard_def assign_def lookup_def elements_def)
  next
    case True
    with separate_base [OF assms(1) Some] have lt: "base sk < next_array w" by simp
    show ?thesis
    proof (cases "len (index w r t) < cap (index w r t)")
      case inplace: True
      then have "0 < cap (index w r t)" by simp
      with separate_index(4) [OF assms(1)] have "maps w r t = Some (index w r t)" by simp
      from separate_distinct [OF assms(1) Some this assms(2) True \<open>0 < cap (index w r t)\<close>]
      have "base sk \<noteq> base (index w r t)" .
      with assms(2) Some inplace show ?thesis
        by (simp add: append_entry_def append_guard_def assign_def lookup_def elements_def)
    next
      case False
      with assms(2) Some lt show ?thesis
        by (simp add: append_entry_def append_guard_def assign_def lookup_def elements_def)
    qed
  qed
qed

subsection \<open>Appending keeps the keys apart\<close>

lemma append_entry_inplace:
  assumes "len (index w r t) < cap (index w r t)"
  shows "maps (append_entry r t guard w) r
           = (maps w r)(t \<mapsto> (index w r t)\<lparr>len := Suc (len (index w r t))\<rparr>)"
    and "arrays (append_entry r t guard w)
           = (arrays w)(base (index w r t) :=
               put_slot (off (index w r t) + len (index w r t)) guard
                 (arrays w (base (index w r t))))"
    and "next_array (append_entry r t guard w) = next_array w"
  using assms by (simp_all add: append_entry_def append_guard_def assign_def)

lemma append_entry_realloc:
  assumes "\<not> len (index w r t) < cap (index w r t)"
  shows "maps (append_entry r t guard w) r
           = (maps w r)(t \<mapsto> \<lparr>base = next_array w, off = 0, len = Suc (len (index w r t)),
               cap = Suc (len (index w r t))
                 + spare w (cap (index w r t)) (Suc (len (index w r t)))\<rparr>)"
    and "arrays (append_entry r t guard w)
           = (arrays w)(next_array w := elements w (index w r t) @ [guard])"
    and "next_array (append_entry r t guard w) = Suc (next_array w)"
  using assms by (simp_all add: append_entry_def append_guard_def assign_def)

lemma append_entry_separate:
  assumes sep: "separate w r"
  shows "separate (append_entry r t guard w) r"
proof (cases "len (index w r t) < cap (index w r t)")
  case True
  let ?i = "index w r t"
  note eqs = append_entry_inplace [OF True, of guard]
  from True have pos: "0 < cap ?i" by simp
  have it: "maps w r t = Some ?i" using separate_index(4) [OF sep pos] .
  have ib: "base ?i < next_array w" using separate_index(2) [OF sep pos] .
  have iw: "off ?i + len ?i \<le> length (arrays w (base ?i))" using separate_index(3) [OF sep pos] .
  have other: "base s \<noteq> base ?i" if "maps w r k = Some s" "k \<noteq> t" "0 < cap s" for k s
    using separate_distinct [OF sep that(1) it that(2) that(3) pos] .
  show ?thesis
    unfolding separate_def eqs
  proof (intro conjI allI impI)
    fix k s assume "((maps w r)(t \<mapsto> ?i\<lparr>len := Suc (len ?i)\<rparr>)) k = Some s"
    then consider "k = t" "s = ?i\<lparr>len := Suc (len ?i)\<rparr>" | "k \<noteq> t" "maps w r k = Some s"
      by (auto split: if_splits)
    then show "len s \<le> cap s"
      using True separate_len [OF sep] by cases auto
  next
    fix k s assume a: "((maps w r)(t \<mapsto> ?i\<lparr>len := Suc (len ?i)\<rparr>)) k = Some s" and c: "0 < cap s"
    then consider "k = t" "s = ?i\<lparr>len := Suc (len ?i)\<rparr>" | "k \<noteq> t" "maps w r k = Some s"
      by (auto split: if_splits)
    then show "base s < next_array w"
      using ib separate_base [OF sep _ c] by cases auto
  next
    fix k s assume a: "((maps w r)(t \<mapsto> ?i\<lparr>len := Suc (len ?i)\<rparr>)) k = Some s" and c: "0 < cap s"
    then consider "k = t" "s = ?i\<lparr>len := Suc (len ?i)\<rparr>" | "k \<noteq> t" "maps w r k = Some s"
      by (auto split: if_splits)
    then show "off s + len s
        \<le> length (((arrays w)(base ?i := put_slot (off ?i + len ?i) guard (arrays w (base ?i)))) (base s))"
    proof cases
      case 1
      with iw show ?thesis by (simp add: length_put_slot)
    next
      case 2
      with other [OF 2(2) 2(1) c] separate_written [OF sep 2(2) c] show ?thesis by simp
    qed
  next
    fix k k' s s'
    assume a: "((maps w r)(t \<mapsto> ?i\<lparr>len := Suc (len ?i)\<rparr>)) k = Some s \<and>
       ((maps w r)(t \<mapsto> ?i\<lparr>len := Suc (len ?i)\<rparr>)) k' = Some s' \<and> k \<noteq> k' \<and> 0 < cap s \<and> 0 < cap s'"
    then consider "k = t" "s = ?i\<lparr>len := Suc (len ?i)\<rparr>" "k' \<noteq> t" "maps w r k' = Some s'"
      | "k' = t" "s' = ?i\<lparr>len := Suc (len ?i)\<rparr>" "k \<noteq> t" "maps w r k = Some s"
      | "k \<noteq> t" "k' \<noteq> t" "maps w r k = Some s" "maps w r k' = Some s'"
      by (auto split: if_splits)
    then show "base s \<noteq> base s'"
    proof cases
      case 1
      with other [OF 1(4) 1(3)] a show ?thesis by auto
    next
      case 2
      with other [OF 2(4) 2(3)] a show ?thesis by auto
    next
      case 3
      with separate_distinct [OF sep 3(3) 3(4)] a show ?thesis by auto
    qed
  qed
next
  case False
  let ?i = "index w r t"
  let ?n = "\<lparr>base = next_array w, off = 0, len = Suc (len ?i),
               cap = Suc (len ?i) + spare w (cap ?i) (Suc (len ?i))\<rparr>"
  note eqs = append_entry_realloc [OF False, of guard]
  have le: "length (elements w ?i) = len ?i" using length_elements_index [OF sep] .
  show ?thesis
    unfolding separate_def eqs
  proof (intro conjI allI impI)
    fix k s assume "((maps w r)(t \<mapsto> ?n)) k = Some s"
    then consider "k = t" "s = ?n" | "k \<noteq> t" "maps w r k = Some s"
      by (auto split: if_splits)
    then show "len s \<le> cap s"
      using separate_len [OF sep] by cases auto
  next
    fix k s assume a: "((maps w r)(t \<mapsto> ?n)) k = Some s" and c: "0 < cap s"
    then consider "k = t" "s = ?n" | "k \<noteq> t" "maps w r k = Some s"
      by (auto split: if_splits)
    then show "base s < Suc (next_array w)"
      using separate_base [OF sep _ c] by cases (auto simp add: less_Suc_eq)
  next
    fix k s assume a: "((maps w r)(t \<mapsto> ?n)) k = Some s" and c: "0 < cap s"
    then consider "k = t" "s = ?n" | "k \<noteq> t" "maps w r k = Some s"
      by (auto split: if_splits)
    then show "off s + len s
        \<le> length (((arrays w)(next_array w := elements w ?i @ [guard])) (base s))"
    proof cases
      case 1
      with le show ?thesis by simp
    next
      case 2
      with separate_base [OF sep 2(2) c] separate_written [OF sep 2(2) c] show ?thesis by simp
    qed
  next
    fix k k' s s'
    assume a: "((maps w r)(t \<mapsto> ?n)) k = Some s \<and>
       ((maps w r)(t \<mapsto> ?n)) k' = Some s' \<and> k \<noteq> k' \<and> 0 < cap s \<and> 0 < cap s'"
    then consider "k = t" "s = ?n" "k' \<noteq> t" "maps w r k' = Some s'"
      | "k' = t" "s' = ?n" "k \<noteq> t" "maps w r k = Some s"
      | "k \<noteq> t" "k' \<noteq> t" "maps w r k = Some s" "maps w r k' = Some s'"
      by (auto split: if_splits)
    then show "base s \<noteq> base s'"
    proof cases
      case 1
      with separate_base [OF sep 1(4)] a show ?thesis by auto
    next
      case 2
      with separate_base [OF sep 2(4)] a show ?thesis by auto
    next
      case 3
      with separate_distinct [OF sep 3(3) 3(4)] a show ?thesis by auto
    qed
  qed
qed

lemma AddRule_separate: "separate w r \<Longrightarrow> separate (AddRule r t guards w) r"
  by (induction guards arbitrary: w) (simp_all add: append_entry_separate)

lemma elements_index_append_entry:
  assumes "separate w r"
  shows "elements (append_entry r t guard w) (index (append_entry r t guard w) r t)
           = elements w (index w r t) @ [guard]"
proof -
  from append_entry_same [OF assms, of t guard]
  obtain s where s: "maps (append_entry r t guard w) r t = Some s"
    and e: "elements (append_entry r t guard w) s = elements w (index w r t) @ [guard]"
    by (auto simp add: lookup_def)
  from s have "index (append_entry r t guard w) r t = s" by (simp add: index_def)
  with e show ?thesis by simp
qed

lemma AddRule_same:
  "separate w r \<Longrightarrow> guards \<noteq> [] \<Longrightarrow>
   lookup (AddRule r t guards w) r t = Some (elements w (index w r t) @ guards)"
proof (induction guards arbitrary: w)
  case Nil
  then show ?case by simp
next
  case (Cons guard guards)
  show ?case
  proof (cases "guards = []")
    case True
    with append_entry_same [OF Cons.prems(1)] show ?thesis by simp
  next
    case False
    from Cons.IH [OF append_entry_separate [OF Cons.prems(1)] False]
    show ?thesis
      by (simp add: elements_index_append_entry [OF Cons.prems(1)])
  qed
qed

lemma AddRule_other:
  "separate w r \<Longrightarrow> k \<noteq> t \<Longrightarrow> lookup (AddRule r t guards w) r k = lookup w r k"
proof (induction guards arbitrary: w)
  case Nil
  show ?case by simp
next
  case (Cons guard guards)
  from Cons.IH [OF append_entry_separate [OF Cons.prems(1)] Cons.prems(2)]
    append_entry_other [OF Cons.prems]
  show ?case by simp
qed


subsection \<open>What the functions leave in the memory\<close>

lemma CurrentState_plain [simp]: "CurrentState plain_subject w = objects w 0"
  by (simp add: CurrentState_def plain_subject_def)


lemma elements_index:
  "elements w (index w r k) = (case lookup w r k of None \<Rightarrow> [] | Some gs \<Rightarrow> gs)"
  by (cases "maps w r k") (simp_all add: lookup_def index_def elements_def nil_slice_def)

lemma append_entry_objects: "objects (append_entry r t guard w) = objects w"
  by (simp add: append_entry_def append_guard_def assign_def)

lemma AddRule_objects: "objects (AddRule r t guards w) = objects w"
  by (induction guards arbitrary: w) (simp_all add: append_entry_objects)

lemma AddTransition_objects: "objects (AddTransition r t w) = objects w"
  unfolding AddTransition_def by (rule AddRule_objects)

lemma CreateRuleSet_loop_objects: "objects (CreateRuleSet_loop r ts w) = objects w"
  by (induction ts arbitrary: w) (simp_all add: AddTransition_objects)

lemma CreateRuleSet_objects: "objects (snd (CreateRuleSet ts w)) = objects w"
  by (simp add: CreateRuleSet_def new_RuleSet_def CreateRuleSet_loop_objects)

lemma new_RuleSet_separate: "separate (snd (new_RuleSet w)) (fst (new_RuleSet w))"
  by (simp add: new_RuleSet_def separate_def)

lemma new_RuleSet_lookup: "lookup (snd (new_RuleSet w)) (fst (new_RuleSet w)) k = None"
  by (simp add: new_RuleSet_def lookup_def)

lemma AddTransition_separate: "separate w r \<Longrightarrow> separate (AddTransition r t w) r"
  unfolding AddTransition_def by (rule AddRule_separate)

lemma AddTransition_same:
  "separate w r \<Longrightarrow>
   lookup (AddTransition r t w) r t = Some (elements w (index w r t) @ [default_guard t])"
  unfolding AddTransition_def by (rule AddRule_same) simp_all

lemma AddTransition_other:
  "separate w r \<Longrightarrow> k \<noteq> t \<Longrightarrow> lookup (AddTransition r t w) r k = lookup w r k"
  unfolding AddTransition_def by (rule AddRule_other)



lemma CreateRuleSet_loop_lookup:
  "separate w r \<Longrightarrow>
   lookup (CreateRuleSet_loop r ts w) r k =
     (if k \<in> set ts
      then Some (elements w (index w r k) @ replicate (count_list ts k) (default_guard k))
      else lookup w r k)"
proof (induction ts arbitrary: w)
  case Nil
  show ?case by simp
next
  case (Cons t ts)
  note sep' = AddTransition_separate [OF Cons.prems, of t]
  note ih = Cons.IH [OF sep']
  show ?case
  proof (cases "k = t")
    case True
    have "elements (AddTransition r t w) (index (AddTransition r t w) r t)
        = elements w (index w r t) @ [default_guard t]"
      by (simp add: elements_index [of "AddTransition r t w"] AddTransition_same [OF Cons.prems])
    with True ih AddTransition_same [OF Cons.prems, of t] show ?thesis
      by (simp add: replicate_append_same count_list_0_iff)
  next
    case False
    have "lookup (AddTransition r t w) r k = lookup w r k"
      using AddTransition_other [OF Cons.prems False] .
    then have "elements (AddTransition r t w) (index (AddTransition r t w) r k)
        = elements w (index w r k)"
      by (simp add: elements_index)
    with False ih \<open>lookup (AddTransition r t w) r k = lookup w r k\<close> show ?thesis
      by simp
  qed
qed

lemma CreateRuleSet_lookup:
  "lookup (snd (CreateRuleSet ts w)) (fst (CreateRuleSet ts w)) k =
     (if k \<in> set ts then Some (replicate (count_list ts k) (default_guard k)) else None)"
  using CreateRuleSet_loop_lookup [OF new_RuleSet_separate, of w ts k]
    new_RuleSet_lookup [of w k]
  by (simp add: CreateRuleSet_def elements_index case_prod_beta)

lemma CurrentState_objects: "objects w' = objects w \<Longrightarrow> CurrentState subject w' = CurrentState subject w"
  by (simp add: CurrentState_def)

lemma CreateRuleSet_Permitted:
  "fst (Permitted (fst (CreateRuleSet ts w)) subject goal (snd (CreateRuleSet ts w)))
     = (T (CurrentState subject w) goal \<in> set ts)"
proof -
  let ?w = "snd (CreateRuleSet ts w)" and ?r = "fst (CreateRuleSet ts w)"
  have cs: "CurrentState subject ?w = CurrentState subject w"
    by (rule CurrentState_objects) (rule CreateRuleSet_objects)
  show ?thesis
  proof (cases "T (CurrentState subject w) goal \<in> set ts")
    case True
    then have "lookup ?w ?r (T (CurrentState subject ?w) goal)
        = Some (replicate (count_list ts (T (CurrentState subject w) goal))
            (default_guard (T (CurrentState subject w) goal)))"
      by (simp add: cs CreateRuleSet_lookup)
    from Permitted_Some [OF this] True show ?thesis
      by (auto simp add: default_guard_def CurrentState_def CreateRuleSet_objects)
  next
    case False
    then have "lookup ?w ?r (T (CurrentState subject ?w) goal) = None"
      by (simp add: cs CreateRuleSet_lookup)
    from Permitted_None [OF this] False show ?thesis by simp
  qed
qed

lemma CreateRuleSet_fst: "fst (CreateRuleSet ts w) = next_map w"
  by (simp add: CreateRuleSet_def new_RuleSet_def)

lemma CreateRuleSet_loop_foldl:
  "CreateRuleSet_loop r ts w = foldl (\<lambda>w' t. AddTransition r t w') w ts"
  by (induction ts arbitrary: w) simp_all

subsection \<open>The example values\<close>

lemma new_RuleSet_start [simp]: "fst (new_RuleSet (start s)) = 0"
  by (simp add: new_RuleSet_def start_def)

lemma CreateRuleSet_start [simp]: "fst (CreateRuleSet ts (start s)) = 0"
  by (simp add: CreateRuleSet_fst start_def)

lemma objects_start [simp]: "objects (start s) a = s"
  by (simp add: start_def)


lemma example_lookup:
  "lookup (example t guards s) 0 k = (if k = t \<and> guards \<noteq> [] then Some guards else None)"
proof (cases "k = t \<and> guards \<noteq> []")
  case True
  with AddRule_same [OF new_RuleSet_separate, of guards "start s" t]
    new_RuleSet_lookup [of "start s" t]
  show ?thesis by (simp add: example_def elements_index)
next
  case False
  show ?thesis
  proof (cases "guards = []")
    case True
    with new_RuleSet_lookup [of "start s" k] show ?thesis by (simp add: example_def)
  next
    case nonempty: False
    with False have "k \<noteq> t" by simp
    from AddRule_other [OF new_RuleSet_separate this, of "start s" guards]
      new_RuleSet_lookup [of "start s" k] \<open>k \<noteq> t\<close>
    show ?thesis by (simp add: example_def)
  qed
qed

lemma example_objects [simp]: "objects (example t guards s) = (\<lambda>a. s)"
  by (simp add: example_def AddRule_objects new_RuleSet_def start_def)

lemma plain_subject_simps [simp]:
  "ref plain_subject = 0" "SetState_method plain_subject g x = g"
  by (simp_all add: plain_subject_def)

lemma SetState_plain [simp]: "objects (SetState plain_subject g w) = (objects w)(0 := g)"
  by (simp add: SetState_def)

lemma CreateRuleSet_start_objects [simp]: "objects (snd (CreateRuleSet ts (start s))) a = s"
  by (simp add: CreateRuleSet_objects)

lemma Permitted_start:
  "fst (Permitted 0 plain_subject goal (snd (CreateRuleSet ts (start s)))) = (T s goal \<in> set ts)"
  using CreateRuleSet_Permitted [of ts "start s" plain_subject goal] by simp

lemma Permitted_example:
  "fst (Permitted 0 plain_subject goal (example t guards s))
     = (t = T s goal \<and> guards \<noteq> [] \<and> (\<forall>g \<in> set guards. g plain_subject goal (\<lambda>a. s)))"
proof (cases "t = T s goal \<and> guards \<noteq> []")
  case True
  then have "lookup (example t guards s) 0 (T (CurrentState plain_subject (example t guards s)) goal)
      = Some guards"
    by (simp add: example_lookup)
  from Permitted_Some [OF this] True show ?thesis
    by simp
next
  case False
  then have "lookup (example t guards s) 0 (T (CurrentState plain_subject (example t guards s)) goal)
      = None"
    by (auto simp add: example_lookup)
  from Permitted_None [OF this] False show ?thesis by auto
qed

subsection \<open>Machine.Transition\<close>

text \<open>
  C1. \<open>Machine.Transition(goal)\<close> returns no error exactly when \<open>Permitted\<close> answers true
  for the machine's rules, its subject and the goal. When permitted, the memory
  afterwards is the memory after \<open>SetState(goal)\<close> on the subject; when denied, the error
  is \<open>ErrInvalidTransition\<close> and the memory, the subject's object included, is as before.
\<close>

theorem Machine_Transition_iff:
  "(fst (Machine_Transition m goal w) = None) = fst (Permitted (Rules m) (Subject m) goal w)
   \<and> (fst (Permitted (Rules m) (Subject m) goal w) \<longrightarrow>
        Machine_Transition m goal w = (None, SetState (Subject m) goal w))
   \<and> (\<not> fst (Permitted (Rules m) (Subject m) goal w) \<longrightarrow>
        Machine_Transition m goal w = (Some ErrInvalidTransition, w))"
  using Permitted_world [of "Rules m" "Subject m" goal w]
  by (cases "Permitted (Rules m) (Subject m) goal w") (simp add: Machine_Transition_def)

theorem Machine_Transition_iff_witness:
  "fst (Machine_Transition (New 0 plain_subject) 1 (snd (CreateRuleSet [T 0 1] (start 0)))) = None
   \<and> objects (snd (Machine_Transition (New 0 plain_subject) 1
        (snd (CreateRuleSet [T 0 1] (start 0))))) 0 = 1
   \<and> Machine_Transition (New 0 plain_subject) 1 (snd (CreateRuleSet [T 0 1] (start 1)))
     = (Some ErrInvalidTransition, snd (CreateRuleSet [T 0 1] (start 1)))"
  using Machine_Transition_iff [of "New 0 plain_subject" 1 "snd (CreateRuleSet [T 0 1] (start 0))"]
    Machine_Transition_iff [of "New 0 plain_subject" 1 "snd (CreateRuleSet [T 0 1] (start 1))"]
  by (simp add: New_def Permitted_start)

subsection \<open>Permitted\<close>

text \<open>
  C2. If no rule is registered under the key (current state of the subject, goal),
  \<open>Permitted\<close> answers false, whatever is registered under other keys.
\<close>

theorem Permitted_no_rule:
  "lookup w r (T (CurrentState subject w) goal) = None \<Longrightarrow> \<not> fst (Permitted r subject goal w)"
  by (simp add: Permitted_def lookup_def)

theorem Permitted_no_rule_witness:
  "lookup (example (T 1 0) [always True] 0) 0 (T 1 0) = Some [always True]
   \<and> lookup (example (T 1 0) [always True] 0) 0
       (T (CurrentState plain_subject (example (T 1 0) [always True] 0)) 1) = None
   \<and> \<not> fst (Permitted 0 plain_subject 1 (example (T 1 0) [always True] 0))"
  using Permitted_no_rule [of "example (T 1 0) [always True] 0" 0 plain_subject 1]
  by (simp add: example_lookup)

text \<open>
  C3. When a guard list is registered under the key (current state of the subject,
  goal), \<open>Permitted\<close> answers true if and only if every guard of the list answers true on
  (subject, goal); and the receiving loop gives that same answer for every order in
  which the outcomes arrive.
\<close>

theorem Permitted_all_guards:
  assumes "lookup w r (T (CurrentState subject w) goal) = Some guards"
  shows "fst (Permitted r subject goal w) = (\<forall>g \<in> set guards. g subject goal (objects w))
    \<and> (\<forall>arrived. mset arrived = mset (map (\<lambda>g. g subject goal (objects w)) guards) \<longrightarrow>
          await_outcomes arrived = fst (Permitted r subject goal w))"
proof -
  have "fst (Permitted r subject goal w)
      = await_outcomes (map (\<lambda>g. g subject goal (objects w)) guards)"
    using assms by (auto simp add: Permitted_def lookup_def)
  moreover have "await_outcomes arrived
      = await_outcomes (map (\<lambda>g. g subject goal (objects w)) guards)"
    if "mset arrived = mset (map (\<lambda>g. g subject goal (objects w)) guards)" for arrived
    using that by (rule await_outcomes_any_order)
  ultimately show ?thesis
    by (simp add: await_outcomes_iff)
qed

theorem Permitted_all_guards_witness:
  "\<not> fst (Permitted 0 plain_subject 1 (example (T 0 1) [always True, always False] 0))
   \<and> fst (Permitted 0 plain_subject 1 (example (T 0 1) [always True, always True] 0))
   \<and> await_outcomes [False, True]
       = fst (Permitted 0 plain_subject 1 (example (T 0 1) [always True, always False] 0))"
  using Permitted_all_guards [of "example (T 0 1) [always True, always False] 0" 0 plain_subject 1
      "[always True, always False]"]
    Permitted_all_guards [of "example (T 0 1) [always True, always True] 0" 0 plain_subject 1
      "[always True, always True]"]
  by (simp add: example_lookup always_def)

subsection \<open>Transitions of other types\<close>

text \<open>
  C4. The claim: for a rule set built only by \<open>AddTransition\<close>, \<open>Permitted(subject, goal)\<close>
  is true if and only if a registered transition has its origin equal to the subject's
  current state and its exit equal to the goal. Registration takes any \<open>Transition\<close>, but
  \<open>Permitted\<close> looks up a \<open>T\<close> value: after \<open>CreateRuleSet\<close> of a transition from 0 to 1 that is
  a value of another struct type, or a pointer to a \<open>T\<close>, the move of a subject at 0 to 1
  is denied, while it is permitted after \<open>CreateRuleSet(T{0, 1})\<close>.
\<close>

theorem CreateRuleSet_other_type_denied:
  "Origin (Other ''X'' 0 1) = CurrentState plain_subject (start 0)
   \<and> Exit (Other ''X'' 0 1) = 1
   \<and> \<not> fst (Permitted 0 plain_subject 1 (snd (CreateRuleSet [Other ''X'' 0 1] (start 0))))
   \<and> \<not> fst (Permitted 0 plain_subject 1 (snd (CreateRuleSet [Ptr 7 0 1] (start 0))))
   \<and> fst (Permitted 0 plain_subject 1 (snd (CreateRuleSet [T 0 1] (start 0))))"
  by (simp add: Permitted_start)

text \<open>
  C6. The claim: guards registered by \<open>AddRule(t1, ...)\<close> are found by
  \<open>Permitted(subject, goal)\<close> whenever the subject's current state is \<open>t1.Origin()\<close> and the
  goal is \<open>t1.Exit()\<close>, for \<open>t1\<close> of any type that implements \<open>Transition\<close>. A guard that
  always answers true, registered under \<open>T{0, 1}\<close>, is found for a subject at 0 and the
  goal 1; registered under a value of another struct type or under a pointer, with the
  same origin and exit, it is not, for the same reason as in C4.
\<close>

theorem AddRule_other_type_not_found:
  "Origin (Other ''X'' 0 1) = Origin (T 0 1) \<and> Exit (Other ''X'' 0 1) = Exit (T 0 1)
   \<and> Origin (Ptr 7 0 1) = Origin (T 0 1) \<and> Exit (Ptr 7 0 1) = Exit (T 0 1)
   \<and> CurrentState plain_subject (start 0) = Origin (T 0 1)
   \<and> fst (Permitted 0 plain_subject 1 (example (T 0 1) [always True] 0))
   \<and> \<not> fst (Permitted 0 plain_subject 1 (example (Other ''X'' 0 1) [always True] 0))
   \<and> \<not> fst (Permitted 0 plain_subject 1 (example (Ptr 7 0 1) [always True] 0))"
  by (simp add: Permitted_example always_def)

subsection \<open>AddRule without guards\<close>

text \<open>
  C5, as the code has it. \<open>AddRule\<close> with zero guards leaves the memory, and so the rule
  set, as it was and creates no entry: a key that was absent stays absent and
  \<open>Permitted\<close> answers false for it afterwards. \<open>Permitted\<close> answers true by the empty
  conjunction only where the key is already bound to an empty guard list.
\<close>

theorem AddRule_no_guards:
  "AddRule r t [] w = w
   \<and> (lookup w r (T (CurrentState subject w) goal) = None \<longrightarrow>
        \<not> fst (Permitted r subject goal (AddRule r t [] w)))
   \<and> (lookup w r (T (CurrentState subject w) goal) = Some [] \<longrightarrow>
        fst (Permitted r subject goal (AddRule r t [] w)))"
  by (auto simp add: Permitted_def lookup_def)

theorem AddRule_no_guards_witness:
  "AddRule 0 (T 0 1) [] (snd (new_RuleSet (start 0))) = snd (new_RuleSet (start 0))
   \<and> \<not> fst (Permitted 0 plain_subject 1 (AddRule 0 (T 0 1) [] (snd (new_RuleSet (start 0)))))
   \<and> fst (Permitted 0 plain_subject 1
        (AddRule 0 (T 0 1) [] (assign 0 (T 0 1) nil_slice (snd (new_RuleSet (start 0))))))"
  using AddRule_no_guards [of 0 "T 0 1" "snd (new_RuleSet (start 0))" plain_subject 1]
    AddRule_no_guards [of 0 "T 0 1" "assign 0 (T 0 1) nil_slice (snd (new_RuleSet (start 0)))"
      plain_subject 1]
  by (simp add: lookup_def new_RuleSet_def start_def assign_def elements_def nil_slice_def)

text \<open>
  On a new rule set, \<open>AddRule\<close> with no guards for the transition from 0 to 1 leaves
  the key absent, and the move is denied.
\<close>

theorem AddRule_no_guards_counterexample:
  "lookup (example (T 0 1) [] 0) 0 (T 0 1) = None
   \<and> \<not> fst (Permitted 0 plain_subject 1 (example (T 0 1) [] 0))"
  by (simp add: example_lookup Permitted_example)

subsection \<open>CreateRuleSet\<close>

text \<open>
  C7. \<open>CreateRuleSet(t1, ..., tn)\<close> gives the rule set and the memory obtained from a new,
  empty rule set by \<open>AddTransition(t1)\<close>, ..., \<open>AddTransition(tn)\<close>, so \<open>Permitted\<close> gives the
  same answer on both for every subject and goal; for two transitions this is
  \<open>AddTransition(t1); AddTransition(t2)\<close> on the new rule set.
\<close>

theorem CreateRuleSet_manual:
  "CreateRuleSet ts w = manual_AddTransitions ts w
   \<and> fst (Permitted (fst (CreateRuleSet ts w)) subject goal (snd (CreateRuleSet ts w)))
       = fst (Permitted (fst (manual_AddTransitions ts w)) subject goal
           (snd (manual_AddTransitions ts w)))
   \<and> CreateRuleSet [t1, t2] w
       = (fst (new_RuleSet w),
          AddTransition (fst (new_RuleSet w)) t2
            (AddTransition (fst (new_RuleSet w)) t1 (snd (new_RuleSet w))))"
  by (simp add: CreateRuleSet_def manual_AddTransitions_def CreateRuleSet_loop_foldl
      case_prod_beta)

theorem CreateRuleSet_manual_witness:
  "fst (Permitted 0 plain_subject 2 (snd (CreateRuleSet [T 0 1, T 1 2] (start 1))))
     = fst (Permitted 0 plain_subject 2
         (AddTransition 0 (T 1 2) (AddTransition 0 (T 0 1) (snd (new_RuleSet (start 1))))))
   \<and> fst (Permitted 0 plain_subject 2 (snd (manual_AddTransitions [T 0 1, T 1 2] (start 1))))"
proof -
  have "fst (Permitted 0 plain_subject 2 (snd (CreateRuleSet [T 0 1, T 1 2] (start 1))))"
    by (simp add: Permitted_start)
  then show ?thesis
    using CreateRuleSet_manual [of "[T 0 1, T 1 2]" "start 1" plain_subject 2 "T 0 1" "T 1 2"]
    by (metis CreateRuleSet_start new_RuleSet_start snd_conv)
qed

subsection \<open>Rule sets only grow\<close>




subsection \<open>Frame\<close>

text \<open>
  C10. \<open>Permitted\<close> leaves the whole memory as it was: no object, no entry of a rule map
  and no backing array is written. \<open>AddRule\<close>, \<open>AddTransition\<close> and \<open>CreateRuleSet\<close> leave
  every object as it was, and \<open>New\<close> stores the rule set and the subject as given.
  \<open>Machine.Transition\<close> leaves the memory as it was when the move is denied and makes
  the one call \<open>SetState(goal)\<close> when it is permitted: the rule maps and the backing
  arrays are as before, every object but the subject's is as before, and the subject's
  object is what its \<open>SetState\<close> method makes of it.
\<close>

theorem API_frame:
  "snd (Permitted r subject goal w) = w
   \<and> objects (AddRule r t guards w) = objects w
   \<and> objects (AddTransition r t w) = objects w
   \<and> objects (snd (CreateRuleSet ts w)) = objects w
   \<and> Rules (New r subject) = r \<and> Subject (New r subject) = subject
   \<and> snd (Machine_Transition m goal w)
       = (if fst (Permitted (Rules m) (Subject m) goal w) then SetState (Subject m) goal w else w)
   \<and> maps (snd (Machine_Transition m goal w)) = maps w
   \<and> arrays (snd (Machine_Transition m goal w)) = arrays w
   \<and> (\<forall>a. a \<noteq> ref (Subject m) \<longrightarrow> objects (snd (Machine_Transition m goal w)) a = objects w a)
   \<and> objects (snd (Machine_Transition m goal w)) (ref (Subject m))
       = (if fst (Permitted (Rules m) (Subject m) goal w)
          then SetState_method (Subject m) goal (objects w (ref (Subject m)))
          else objects w (ref (Subject m)))"
proof -
  have mt: "snd (Machine_Transition m goal w)
       = (if fst (Permitted (Rules m) (Subject m) goal w) then SetState (Subject m) goal w else w)"
    using Permitted_world [of "Rules m" "Subject m" goal w]
    by (cases "Permitted (Rules m) (Subject m) goal w") (simp add: Machine_Transition_def)
  show ?thesis
    unfolding mt
    by (simp add: Permitted_world AddRule_objects AddTransition_objects CreateRuleSet_objects
        New_def SetState_def)
qed

theorem API_frame_witness:
  "snd (Permitted 0 plain_subject 1 (snd (CreateRuleSet [T 0 1] (start 0))))
     = snd (CreateRuleSet [T 0 1] (start 0))
   \<and> objects (snd (Machine_Transition (New 0 plain_subject) 1
        (snd (CreateRuleSet [T 0 1] (start 0))))) 0 = 1
   \<and> objects (snd (Machine_Transition (New 0 plain_subject) 1
        (snd (CreateRuleSet [T 0 1] (start 0))))) 5 = 0
   \<and> snd (Machine_Transition (New 0 plain_subject) 5 (snd (CreateRuleSet [T 0 1] (start 0))))
     = snd (CreateRuleSet [T 0 1] (start 0))
   \<and> objects (AddRule 0 (T 1 2) [always True] (snd (CreateRuleSet [T 0 1] (start 0)))) 0 = 0"
  using API_frame [of 0 plain_subject 1 "snd (CreateRuleSet [T 0 1] (start 0))" "T 1 2"
      "[always True]" "[T 0 1]" "New 0 plain_subject"]
    API_frame [of 0 plain_subject 5 "snd (CreateRuleSet [T 0 1] (start 0))" "T 1 2"
      "[always True]" "[T 0 1]" "New 0 plain_subject"]
  by (simp add: New_def Permitted_start)

end
